theory Spec2Isabelle
  imports Main "HOL-Library.Word" "HOL-Library.Multiset"
begin

unbundle bit_operations_syntax

section \<open>Data model\<close>

text \<open>
  A byte is an 8-bit word, as the elements of a Python \<open>bytes\<close> or \<open>bytearray\<close> are.
  A pixel is the tuple of channel values that \<open>Image.getdata\<close> yields; the tuple may have
  any number of components, which is why it is a list. A password is a Python \<open>str\<close>: a
  sequence of code points, each below \<open>0x110000\<close>. A \<open>str\<close> may hold surrogate code points
  (\<open>0xD800\<close> to \<open>0xDFFF\<close>); the command line yields them for bytes that are not UTF-8.
\<close>

type_synonym byte = "8 word"
type_synonym pixel = "byte list"
type_synonym pystr = "nat list"

datatype error = IndexError | ValueError | FileNotFoundError | UnicodeEncodeError | OSError

text \<open>
  SHA-256 comes from \<open>hashlib\<close>; it is a parameter \<open>H\<close> of the model. Its value is the
  256-bit hash, so that \<open>digest\<close> has 32 bytes by construction. \<open>digest\<close> lists the bytes
  most significant first, as \<open>.digest()\<close> does.
\<close>

type_synonym sha256 = "byte list \<Rightarrow> 256 word"

definition digest :: "256 word \<Rightarrow> byte list" where
  "digest w = map (\<lambda>i. ucast (drop_bit (8 * (31 - i)) w)) [0..<32]"

section \<open>Python sequence operations\<close>

text \<open>Errors propagate as exceptions do: the first \<open>Inl\<close> ends the computation.\<close>

definition bind_err :: "error + 'a \<Rightarrow> ('a \<Rightarrow> error + 'b) \<Rightarrow> error + 'b" where
  "bind_err m f = (case m of Inl e \<Rightarrow> Inl e | Inr v \<Rightarrow> f v)"

text \<open>
  \<open>s.encode("utf-8")\<close>: one to four bytes for each code point; a surrogate cannot be
  encoded and raises \<open>UnicodeEncodeError\<close>.
\<close>

definition utf8_char :: "nat \<Rightarrow> error + byte list" where
  "utf8_char c =
     (if c < 0x80 then Inr [of_nat c]
      else if c < 0x800 then Inr [of_nat (0xC0 + c div 64), of_nat (0x80 + c mod 64)]
      else if 0xD800 \<le> c \<and> c \<le> 0xDFFF then Inl UnicodeEncodeError
      else if c < 0x10000
        then Inr [of_nat (0xE0 + c div 4096), of_nat (0x80 + c div 64 mod 64),
                  of_nat (0x80 + c mod 64)]
      else Inr [of_nat (0xF0 + c div 262144), of_nat (0x80 + c div 4096 mod 64),
                of_nat (0x80 + c div 64 mod 64), of_nat (0x80 + c mod 64)])"

fun encode_utf8 :: "pystr \<Rightarrow> error + byte list" where
  "encode_utf8 [] = Inr []"
| "encode_utf8 (c # cs) =
     bind_err (utf8_char c) (\<lambda>b. bind_err (encode_utf8 cs) (\<lambda>bs. Inr (b @ bs)))"

text \<open>\<open>xs[i]\<close> and \<open>xs[i] = v\<close>: a negative index counts from the end, an index out of
  range raises \<open>IndexError\<close>.\<close>

definition py_index :: "'a list \<Rightarrow> int \<Rightarrow> error + nat" where
  "py_index xs i =
     (let n = int (length xs); k = (if i < 0 then i + n else i)
      in if 0 \<le> k \<and> k < n then Inr (nat k) else Inl IndexError)"

definition py_get :: "'a list \<Rightarrow> int \<Rightarrow> error + 'a" where
  "py_get xs i = bind_err (py_index xs i) (\<lambda>k. Inr (xs ! k))"

definition py_set :: "'a list \<Rightarrow> int \<Rightarrow> 'a \<Rightarrow> error + 'a list" where
  "py_set xs i v = bind_err (py_index xs i) (\<lambda>k. Inr (xs[k := v]))"

text \<open>A \<open>for\<close> loop over a sequence whose body updates one variable and may raise.\<close>

fun for_each :: "('a \<Rightarrow> 's \<Rightarrow> error + 's) \<Rightarrow> 'a list \<Rightarrow> 's \<Rightarrow> error + 's" where
  "for_each body [] s = Inr s"
| "for_each body (x # xs) s = bind_err (body x s) (for_each body xs)"

text \<open>\<open>range(n)\<close> for a Python int \<open>n\<close> (empty when \<open>n \<le> 0\<close>) and \<open>enumerate(xs)\<close>.\<close>

definition py_range :: "int \<Rightarrow> int list" where
  "py_range n = map int [0..<nat n]"

definition py_enumerate :: "'a list \<Rightarrow> (int \<times> 'a) list" where
  "py_enumerate xs = zip (map int [0..<length xs]) xs"

section \<open>The key stream\<close>

text \<open>
  \<open>_key_stream\<close>: the password is encoded and hashed first, which raises when it cannot
  be encoded. The loop extends \<open>stream\<close> by one digest while it is shorter than
  \<open>length\<close>. The hashed message is \<open>h + stream[-32:]\<close> once the stream has 32 bytes and
  \<open>h\<close> alone before. \<open>stream[:length]\<close> is Python's slice, also for a negative bound.
\<close>

definition last32 :: "byte list \<Rightarrow> byte list" where
  "last32 stream = drop (length stream - 32) stream"

function key_stream_loop :: "sha256 \<Rightarrow> byte list \<Rightarrow> byte list \<Rightarrow> int \<Rightarrow> byte list" where
  "key_stream_loop H h stream len =
     (if int (length stream) < len
      then key_stream_loop H h
             (stream @ digest (H (if length stream \<ge> 32 then h @ last32 stream else h))) len
      else stream)"
  by pat_completeness auto
termination
  by (relation "measure (\<lambda>(H, h, stream, len). nat (len - int (length stream)))")
     (auto simp: digest_def)

declare key_stream_loop.simps [simp del]

definition py_slice_to :: "'a list \<Rightarrow> int \<Rightarrow> 'a list" where
  "py_slice_to xs k = (if k < 0 then take (nat (int (length xs) + k)) xs else take (nat k) xs)"

definition key_stream :: "sha256 \<Rightarrow> pystr \<Rightarrow> int \<Rightarrow> error + byte list" where
  "key_stream H key len =
     bind_err (encode_utf8 key) (\<lambda>encoded.
       let h = digest (H encoded);
           stream = key_stream_loop H h [] len
       in Inr (py_slice_to stream len))"

section \<open>Permutations of indices\<close>

text \<open>
  \<open>random.Random(seed)\<close> and its \<open>shuffle\<close> come from the standard library. The
  generator is a parameter of the model: \<open>mk\<close> builds the state of a fresh generator from
  a seed and \<open>rb g k\<close> is \<open>_randbelow(k)\<close> on the state \<open>g\<close>, returning the number drawn
  and the next state. \<open>random_shuffle\<close> is the library's loop
  \<^verbatim>\<open>for i in reversed(range(1, len(x))): j = randbelow(i + 1); x[i], x[j] = x[j], x[i]\<close>
  and \<open>shuffle_loop rb i\<close> runs it from index \<open>i\<close> down to 1.
\<close>

type_synonym 'g randbelow = "'g \<Rightarrow> nat \<Rightarrow> nat \<times> 'g"

fun shuffle_loop :: "'g randbelow \<Rightarrow> nat \<Rightarrow> int list \<Rightarrow> 'g \<Rightarrow> error + int list" where
  "shuffle_loop rb 0 x g = Inr x"
| "shuffle_loop rb (Suc i) x g =
     (case rb g (Suc i + 1) of (j, g') \<Rightarrow>
        bind_err (py_get x (int j)) (\<lambda>xj.
        bind_err (py_get x (int (Suc i))) (\<lambda>xi.
        bind_err (py_set x (int (Suc i)) xj) (\<lambda>x'.
        bind_err (py_set x' (int j) xi) (\<lambda>x''.
        shuffle_loop rb i x'' g')))))"

definition random_shuffle :: "'g randbelow \<Rightarrow> int list \<Rightarrow> 'g \<Rightarrow> error + int list" where
  "random_shuffle rb x g = shuffle_loop rb (length x - 1) x g"

definition shuffle_indices ::
  "(int \<Rightarrow> 'g) \<Rightarrow> 'g randbelow \<Rightarrow> int \<Rightarrow> int \<Rightarrow> error + int list" where
  "shuffle_indices mk rb n seed =
     (let rng = mk seed;
          indices = py_range n
      in random_shuffle rb indices rng)"

definition unshuffle_indices :: "int list \<Rightarrow> error + int list" where
  "unshuffle_indices shuffled =
     for_each (\<lambda>(i, j) inverse_idx. py_set inverse_idx j i)
       (py_enumerate shuffled) (replicate (length shuffled) 0)"

section \<open>Pixels and bytes\<close>

definition pixels_to_bytes :: "pixel list \<Rightarrow> int \<Rightarrow> byte list" where
  "pixels_to_bytes pixels channels =
     fold (\<lambda>p out.
       fold (\<lambda>c out. out @ [if c < int (length p) then p ! nat c else 255])
         (py_range channels) out)
       pixels []"

text \<open>\<open>range(0, stop, step)\<close>: a zero step raises; a negative step gives the empty
  range, since \<open>stop\<close> is a length.\<close>

definition py_range_step :: "nat \<Rightarrow> int \<Rightarrow> error + nat list" where
  "py_range_step stop step =
     (if step = 0 then Inl ValueError
      else if step < 0 then Inr []
      else Inr (map (\<lambda>k. k * nat step) [0..<(stop + nat step - 1) div nat step]))"

text \<open>\<open>data[i : i + channels]\<close> for \<open>0 \<le> i\<close> and \<open>0 < channels\<close>; the slice is cut at
  the end of \<open>data\<close>.\<close>

definition bytes_to_pixels :: "byte list \<Rightarrow> int \<Rightarrow> error + pixel list" where
  "bytes_to_pixels data channels =
     bind_err (py_range_step (length data) channels) (\<lambda>starts.
       Inr (fold (\<lambda>i pixels. pixels @ [take (nat channels) (drop i data)]) starts []))"

section \<open>The transform\<close>

text \<open>\<open>int(hashlib.sha256(password.encode("utf-8")).hexdigest()[:16], 16)\<close>: the first
  eight bytes of the digest, read as a number.\<close>

definition seed_of :: "sha256 \<Rightarrow> pystr \<Rightarrow> error + int" where
  "seed_of H password =
     bind_err (encode_utf8 password) (\<lambda>encoded. Inr (uint (drop_bit 192 (H encoded))))"

text \<open>\<open>for i in range(n): flat[i] ^= key_bytes[i]\<close>\<close>

definition xor_pass :: "byte list \<Rightarrow> byte list \<Rightarrow> nat \<Rightarrow> error + byte list" where
  "xor_pass flat key_bytes n =
     for_each (\<lambda>i flat.
         bind_err (py_get flat i) (\<lambda>f.
         bind_err (py_get key_bytes i) (\<lambda>k.
         py_set flat i (f XOR k))))
       (py_range (int n)) flat"

text \<open>\<open>shuffled = bytearray(n); for i, j in enumerate(indices): shuffled[j] = flat[i]\<close>\<close>

definition scatter :: "int list \<Rightarrow> byte list \<Rightarrow> nat \<Rightarrow> error + byte list" where
  "scatter indices flat n =
     for_each (\<lambda>(i, j) shuffled. bind_err (py_get flat i) (\<lambda>b. py_set shuffled j b))
       (py_enumerate indices) (replicate n 0)"

text \<open>\<open>unshuffled = bytearray(n); for i in range(n): unshuffled[inverse[i]] = flat[i]\<close>\<close>

definition unscatter :: "int list \<Rightarrow> byte list \<Rightarrow> nat \<Rightarrow> error + byte list" where
  "unscatter inverse_idx flat n =
     for_each (\<lambda>i unshuffled.
         bind_err (py_get flat i) (\<lambda>b.
         bind_err (py_get inverse_idx i) (\<lambda>q.
         py_set unshuffled q b)))
       (py_range (int n)) (replicate n 0)"

text \<open>
  The part of \<open>encrypt_image\<close> between \<open>img.getdata()\<close> and \<open>putdata\<close>, and the same
  part of \<open>decrypt_image\<close>.
\<close>

definition encrypt_pixels ::
  "sha256 \<Rightarrow> (int \<Rightarrow> 'g) \<Rightarrow> 'g randbelow \<Rightarrow> pixel list \<Rightarrow> pystr \<Rightarrow> bool \<Rightarrow> error + pixel list" where
  "encrypt_pixels H mk rb pixels password shuffle =
     (let channels = 4;
          flat = pixels_to_bytes pixels channels;
          n = length flat
      in bind_err (key_stream H password (int n)) (\<lambda>key_bytes.
         bind_err (xor_pass flat key_bytes n) (\<lambda>flat.
         bind_err (if shuffle
                   then bind_err (seed_of H password) (\<lambda>seed.
                        bind_err (shuffle_indices mk rb (int n) seed) (\<lambda>indices.
                        scatter indices flat n))
                   else Inr flat) (\<lambda>flat.
         bytes_to_pixels flat channels))))"

definition decrypt_pixels ::
  "sha256 \<Rightarrow> (int \<Rightarrow> 'g) \<Rightarrow> 'g randbelow \<Rightarrow> pixel list \<Rightarrow> pystr \<Rightarrow> bool \<Rightarrow> error + pixel list" where
  "decrypt_pixels H mk rb pixels password was_shuffled =
     (let channels = 4;
          flat = pixels_to_bytes pixels channels;
          n = length flat
      in bind_err (if was_shuffled
                   then bind_err (seed_of H password) (\<lambda>seed.
                        bind_err (shuffle_indices mk rb (int n) seed) (\<lambda>indices.
                        bind_err (unshuffle_indices indices) (\<lambda>inverse_idx.
                        unscatter inverse_idx flat n)))
                   else Inr flat) (\<lambda>flat.
         bind_err (key_stream H password (int n)) (\<lambda>key_bytes.
         bind_err (xor_pass flat key_bytes n) (\<lambda>flat.
         bytes_to_pixels flat channels))))"

section \<open>Images\<close>

text \<open>
  An image of the imaging library: its size, its mode and its pixels, row by row. The
  modes modelled are \<open>L\<close>, \<open>LA\<close>, \<open>RGB\<close> and \<open>RGBA\<close>, with one to four bands. Decoding and
  encoding of image files are not modelled. \<open>wf_image\<close> is what the library guarantees of
  an image: one tuple for each of the \<open>width * height\<close> positions, with one value for each
  band of its mode.
\<close>

datatype mode = Mode_L | Mode_LA | Mode_RGB | Mode_RGBA

fun bands :: "mode \<Rightarrow> nat" where
  "bands Mode_L = 1"
| "bands Mode_LA = 2"
| "bands Mode_RGB = 3"
| "bands Mode_RGBA = 4"

record image =
  width :: nat
  height :: nat
  mode :: mode
  getdata :: "pixel list"

definition wf_image :: "image \<Rightarrow> bool" where
  "wf_image img \<longleftrightarrow>
     length (getdata img) = width img * height img
     \<and> list_all (\<lambda>p. length p = bands (mode img)) (getdata img)"


text \<open>\<open>img.convert("RGBA")\<close>: grey becomes the three colours, a missing alpha is 255.\<close>

fun convert_pixel :: "mode \<Rightarrow> pixel \<Rightarrow> pixel" where
  "convert_pixel Mode_L [l] = [l, l, l, 255]"
| "convert_pixel Mode_LA [l, a] = [l, l, l, a]"
| "convert_pixel Mode_RGB [r, g, b] = [r, g, b, 255]"
| "convert_pixel m p = p"

definition convert_rgba :: "image \<Rightarrow> image" where
  "convert_rgba img =
     \<lparr>width = width img, height = height img, mode = Mode_RGBA,
      getdata = map (convert_pixel (mode img)) (getdata img)\<rparr>"

text \<open>\<open>out_img = Image.new("RGBA", (width, height)); out_img.putdata(pixels)\<close>\<close>

definition new_image :: "nat \<Rightarrow> nat \<Rightarrow> pixel list \<Rightarrow> image" where
  "new_image w h pixels = \<lparr>width = w, height = h, mode = Mode_RGBA, getdata = pixels\<rparr>"

text \<open>
  \<open>out_img.save(out_path, "PNG")\<close> on a path that can be written: the library refuses to
  write an image of width 0 or height 0 and raises \<open>ValueError\<close>; otherwise the image is
  written as it is.
\<close>

definition save_png :: "image \<Rightarrow> error + image" where
  "save_png img = (if width img = 0 \<or> height img = 0 then Inl ValueError else Inr img)"

text \<open>
  What the input path names: no file (\<open>path.is_file()\<close> is false), a file that the
  library cannot read as an image (\<open>Image.open\<close>, or the loading that \<open>convert\<close> starts,
  raises an \<open>OSError\<close>), or a file that holds an image.
\<close>

datatype input_file = Not_a_file | Unreadable | Image_file image

text \<open>
  \<open>encrypt_image\<close> and \<open>decrypt_image\<close>, from the file check to the image that is saved.
  \<open>out_writable\<close> tells whether the directory of the output path can be made and the
  file opened for writing; \<open>mkdir\<close> and \<open>save\<close> raise an \<open>OSError\<close> when not, before
  anything of the image is written. The result is the image that the output file holds.
\<close>

definition encrypt_image ::
  "sha256 \<Rightarrow> (int \<Rightarrow> 'g) \<Rightarrow> 'g randbelow \<Rightarrow> input_file \<Rightarrow> bool \<Rightarrow> pystr \<Rightarrow> bool \<Rightarrow> error + image" where
  "encrypt_image H mk rb input out_writable password shuffle =
     (case input of
        Not_a_file \<Rightarrow> Inl FileNotFoundError
      | Unreadable \<Rightarrow> Inl OSError
      | Image_file opened \<Rightarrow>
          let img = convert_rgba opened
          in bind_err (encrypt_pixels H mk rb (getdata img) password shuffle) (\<lambda>pixels.
             let out_img = new_image (width img) (height img) pixels
             in if out_writable then save_png out_img else Inl OSError))"

definition decrypt_image ::
  "sha256 \<Rightarrow> (int \<Rightarrow> 'g) \<Rightarrow> 'g randbelow \<Rightarrow> input_file \<Rightarrow> bool \<Rightarrow> pystr \<Rightarrow> bool \<Rightarrow> error + image" where
  "decrypt_image H mk rb input out_writable password was_shuffled =
     (case input of
        Not_a_file \<Rightarrow> Inl FileNotFoundError
      | Unreadable \<Rightarrow> Inl OSError
      | Image_file opened \<Rightarrow>
          let img = convert_rgba opened
          in bind_err (decrypt_pixels H mk rb (getdata img) password was_shuffled) (\<lambda>pixels.
             let out_img = new_image (width img) (height img) pixels
             in if out_writable then save_png out_img else Inl OSError))"


section \<open>Generators in one process\<close>

text \<open>
  The \<open>random\<close> module keeps one hidden generator for the whole process, which
  \<open>random.seed\<close> and \<open>random.randint\<close> work on; the older script of the repository
  (\<open>swap_pixels\<close>) uses it. \<open>random.Random(seed)\<close> makes a generator object of its own, and
  a method called on an object changes the state of that object. A process is the state
  of the hidden generator and the states of the objects made so far; a reference names
  one of them.
\<close>

record 'g process =
  hidden :: 'g
  instances :: "'g list"

datatype ref = Hidden | Instance nat

definition rng_state :: "'g process \<Rightarrow> ref \<Rightarrow> 'g" where
  "rng_state st r = (case r of Hidden \<Rightarrow> hidden st | Instance a \<Rightarrow> instances st ! a)"

definition set_rng_state :: "ref \<Rightarrow> 'g \<Rightarrow> 'g process \<Rightarrow> 'g process" where
  "set_rng_state r g st =
     (case r of
        Hidden \<Rightarrow> st\<lparr>hidden := g\<rparr>
      | Instance a \<Rightarrow> st\<lparr>instances := (instances st)[a := g]\<rparr>)"

text \<open>\<open>random.Random(seed)\<close>: a new object, after the ones that exist.\<close>

definition new_Random :: "(int \<Rightarrow> 'g) \<Rightarrow> int \<Rightarrow> 'g process \<Rightarrow> ref \<times> 'g process" where
  "new_Random mk seed st =
     (Instance (length (instances st)), st\<lparr>instances := instances st @ [mk seed]\<rparr>)"

text \<open>\<open>_randbelow(k)\<close> on the generator that \<open>r\<close> names: it reads the state of that
  generator and stores the next one.\<close>

definition randbelow_at :: "'g randbelow \<Rightarrow> ref \<Rightarrow> nat \<Rightarrow> 'g process \<Rightarrow> nat \<times> 'g process" where
  "randbelow_at rb r k st =
     (case rb (rng_state st r) k of (j, g') \<Rightarrow> (j, set_rng_state r g' st))"

text \<open>\<open>r.shuffle(x)\<close>, the loop of \<open>shuffle_loop\<close> run on the generator that \<open>r\<close> names.\<close>

fun shuffle_loop_at ::
  "'g randbelow \<Rightarrow> ref \<Rightarrow> nat \<Rightarrow> int list \<Rightarrow> 'g process \<Rightarrow> (error + int list) \<times> 'g process" where
  "shuffle_loop_at rb r 0 x st = (Inr x, st)"
| "shuffle_loop_at rb r (Suc i) x st =
     (case randbelow_at rb r (Suc i + 1) st of (j, st') \<Rightarrow>
        (case bind_err (py_get x (int j)) (\<lambda>xj.
              bind_err (py_get x (int (Suc i))) (\<lambda>xi.
              bind_err (py_set x (int (Suc i)) xj) (\<lambda>x'.
              py_set x' (int j) xi)))
         of Inl e \<Rightarrow> (Inl e, st')
          | Inr x'' \<Rightarrow> shuffle_loop_at rb r i x'' st'))"

text \<open>
  \<open>_shuffle_indices\<close> as it runs in a process:
  \<^verbatim>\<open>rng = random.Random(seed); indices = list(range(n)); rng.shuffle(indices)\<close>
\<close>

definition shuffle_indices_in ::
  "(int \<Rightarrow> 'g) \<Rightarrow> 'g randbelow \<Rightarrow> int \<Rightarrow> int \<Rightarrow> 'g process \<Rightarrow> (error + int list) \<times> 'g process" where
  "shuffle_indices_in mk rb n seed st =
     (case new_Random mk seed st of (rng, st') \<Rightarrow>
        let indices = py_range n
        in shuffle_loop_at rb rng (length indices - 1) indices st')"

text \<open>
  The calls a process makes: the two functions of the module, and \<open>random.seed\<close> and
  \<open>random.randint\<close> on the hidden generator. \<open>exec\<close> runs one call and \<open>run\<close> a sequence
  of calls, collecting what each returns. \<open>_key_stream\<close> names no generator at all.
\<close>

datatype call =
    Call_key_stream pystr int
  | Call_shuffle_indices int int
  | Call_random_seed int
  | Call_random_randint int int

datatype outcome =
    Returned_bytes "byte list"
  | Returned_indices "int list"
  | Returned_int int
  | Returned_none
  | Raised error

fun exec :: "sha256 \<Rightarrow> (int \<Rightarrow> 'g) \<Rightarrow> 'g randbelow \<Rightarrow> call \<Rightarrow> 'g process \<Rightarrow> outcome \<times> 'g process" where
  "exec H mk rb (Call_key_stream key len) st =
     ((case key_stream H key len of Inl e \<Rightarrow> Raised e | Inr b \<Rightarrow> Returned_bytes b), st)"
| "exec H mk rb (Call_shuffle_indices n seed) st =
     (case shuffle_indices_in mk rb n seed st of (r, st') \<Rightarrow>
        ((case r of Inl e \<Rightarrow> Raised e | Inr p \<Rightarrow> Returned_indices p), st'))"
| "exec H mk rb (Call_random_seed k) st = (Returned_none, st\<lparr>hidden := mk k\<rparr>)"
| "exec H mk rb (Call_random_randint a b) st =
     (if b < a then (Raised ValueError, st)
      else case randbelow_at rb Hidden (nat (b - a + 1)) st of
             (r, st') \<Rightarrow> (Returned_int (a + int r), st'))"

fun run :: "sha256 \<Rightarrow> (int \<Rightarrow> 'g) \<Rightarrow> 'g randbelow \<Rightarrow> call list \<Rightarrow> 'g process \<Rightarrow> outcome list" where
  "run H mk rb [] st = []"
| "run H mk rb (c # cs) st =
     (case exec H mk rb c st of (out, st') \<Rightarrow> out # run H mk rb cs st')"

fun core_call :: "call \<Rightarrow> bool" where
  "core_call (Call_key_stream key len) = True"
| "core_call (Call_shuffle_indices n seed) = True"
| "core_call c = False"

text \<open>What a call of the module returns, computed from its arguments alone.\<close>

fun core_value :: "sha256 \<Rightarrow> (int \<Rightarrow> 'g) \<Rightarrow> 'g randbelow \<Rightarrow> call \<Rightarrow> outcome" where
  "core_value H mk rb (Call_key_stream key len) =
     (case key_stream H key len of Inl e \<Rightarrow> Raised e | Inr b \<Rightarrow> Returned_bytes b)"
| "core_value H mk rb (Call_shuffle_indices n seed) =
     (case shuffle_indices mk rb n seed of Inl e \<Rightarrow> Raised e | Inr p \<Rightarrow> Returned_indices p)"
| "core_value H mk rb c = Returned_none"

section \<open>Vocabulary of the properties\<close>

text \<open>The contract of \<open>_randbelow(k)\<close>: for a positive \<open>k\<close> the number drawn is below
  \<open>k\<close>.\<close>

definition randbelow_ok :: "'g randbelow \<Rightarrow> bool" where
  "randbelow_ok rb \<longleftrightarrow> (\<forall>g k. 0 < k \<longrightarrow> fst (rb g k) < k)"

text \<open>A list of length \<open>n\<close> is a permutation of \<open>0..n-1\<close> when its entries are distinct
  and all lie in that range.\<close>

definition is_permutation :: "int list \<Rightarrow> bool" where
  "is_permutation p \<longleftrightarrow> distinct p \<and> list_all (\<lambda>j. 0 \<le> j \<and> j < int (length p)) p"

text \<open>A sequence of stores \<open>s[p] = v\<close>, in order; the loops that fill a buffer position by
  position are compared with it.\<close>

fun writes :: "(nat \<times> 'a) list \<Rightarrow> 'a list \<Rightarrow> 'a list" where
  "writes [] s = s"
| "writes ((p, v) # pvs) s = writes pvs (s[p := v])"

text \<open>A \<open>str\<close> can be encoded when it holds no surrogate.\<close>

definition encodable :: "pystr \<Rightarrow> bool" where
  "encodable s \<longleftrightarrow> list_all (\<lambda>c. \<not> (0xD800 \<le> c \<and> c \<le> 0xDFFF)) s"

text \<open>A small hash and a small generator, to instantiate the parameters at concrete
  inputs, and two passwords: \<open>"test"\<close> and the one-character \<open>str\<close> that the command line
  yields for the byte \<open>0xFF\<close>.\<close>

definition password_test :: pystr where
  "password_test = [116, 101, 115, 116]"

definition password_surrogate :: pystr where
  "password_surrogate = [0xDCFF]"

definition demo_sha :: sha256 where
  "demo_sha m =
     push_bit 192 (word_of_nat (length m) + 0x0123456789ABCDEF)
       + word_of_nat (sum_list (map unat m)) + 0x5A17"

definition demo_mk :: "int \<Rightarrow> nat" where
  "demo_mk seed = nat \<bar>seed\<bar>"

definition demo_rb :: "nat randbelow" where
  "demo_rb g k = ((g * 7 + 3) mod k, g * 7 + 3)"

section \<open>The hash chain, as the specification words it\<close>

text \<open>
  The specification's key stream: the first block is the hash of the seed, every later
  block is the hash of the seed followed by the block before it, and the stream is the
  concatenation of the blocks.
\<close>

fun chain_block :: "sha256 \<Rightarrow> byte list \<Rightarrow> nat \<Rightarrow> byte list" where
  "chain_block H seed 0 = digest (H seed)"
| "chain_block H seed (Suc k) = digest (H (seed @ chain_block H seed k))"

definition hash_chain :: "sha256 \<Rightarrow> byte list \<Rightarrow> nat \<Rightarrow> byte list" where
  "hash_chain H seed m = concat (map (chain_block H seed) [0..<m])"

section \<open>Errors and loops\<close>

lemma bind_err_Inr [simp]: "bind_err (Inr v) f = f v"
  by (simp add: bind_err_def)

lemma bind_err_Inl [simp]: "bind_err (Inl e) f = Inl e"
  by (simp add: bind_err_def)

lemma fold_snoc_map: "fold (\<lambda>c out. out @ [f c]) cs out = out @ map f cs"
  by (induction cs arbitrary: out) simp_all

lemma fold_append_concat: "fold (\<lambda>p out. out @ g p) ps out = out @ concat (map g ps)"
  by (induction ps arbitrary: out) simp_all

section \<open>Flattening and unflattening\<close>

lemma pixel_row:
  "map (\<lambda>c. if c < int (length p) then p ! nat c else 255) (py_range channels)
     = take (nat channels) p @ replicate (nat channels - length p) (255::byte)"
  by (rule nth_equalityI) (auto simp: py_range_def nth_append)

lemma pixels_to_bytes_concat:
  "pixels_to_bytes pixels channels =
     concat (map (\<lambda>p. take (nat channels) p @ replicate (nat channels - length p) 255) pixels)"
  unfolding pixels_to_bytes_def fold_snoc_map fold_append_concat pixel_row by simp

text \<open>
  C9. \<open>_pixels_to_bytes\<close> emits, for each pixel, its first \<open>channels\<close> components and
  then the byte 255 for every channel the tuple lacks: a tuple with fewer components than
  \<open>channels\<close> is padded with 255, a tuple with at least \<open>channels\<close> components is cut to
  its first \<open>channels\<close> values.
\<close>

theorem pixels_to_bytes_padding:
  "pixels_to_bytes pixels channels =
     concat (map (\<lambda>p. take (nat channels) p @ replicate (nat channels - length p) 255) pixels)
   \<and> pixels_to_bytes [[r, g, b]] 4 = [r, g, b, 255]
   \<and> pixels_to_bytes [[r, g, b, a, x]] 4 = [r, g, b, a]"
  by (simp add: pixels_to_bytes_concat)

lemma pixels_to_bytes_rgba:
  "\<forall>p\<in>set pixels. length p = 4 \<Longrightarrow> pixels_to_bytes pixels 4 = concat pixels"
  by (induction pixels) (simp_all add: pixels_to_bytes_concat)

lemma length_pixels_to_bytes:
  "length (pixels_to_bytes pixels channels) = length pixels * nat channels"
  by (induction pixels) (auto simp add: pixels_to_bytes_concat)

lemma bytes_to_pixels_pos:
  "0 < channels \<Longrightarrow> bytes_to_pixels data channels =
     Inr (map (\<lambda>k. take (nat channels) (drop (k * nat channels) data))
            [0..<(length data + nat channels - 1) div nat channels])"
  by (simp add: bytes_to_pixels_def py_range_step_def fold_snoc_map comp_def)

lemma bytes_to_pixels_4:
  "bytes_to_pixels data 4 =
     Inr (map (\<lambda>k. take 4 (drop (k * 4) data)) [0..<(length data + 3) div 4])"
  by (simp add: bytes_to_pixels_pos add.commute)

lemma chunks_concat:
  "\<forall>p\<in>set ps. length p = c \<Longrightarrow> 0 < c \<Longrightarrow>
     map (\<lambda>k. take c (drop (k * c) (concat ps))) [0..<length ps] = ps"
proof (induction ps)
  case Nil
  then show ?case by simp
next
  case (Cons p ps)
  have "map (\<lambda>k. take c (drop (k * c) (concat (p # ps)))) [0..<length (p # ps)]
      = take c (concat (p # ps)) # map (\<lambda>k. take c (drop (Suc k * c) (concat (p # ps)))) [0..<length ps]"
    by (simp add: map_upt_Suc del: upt_Suc)
  also have "\<dots> = p # map (\<lambda>k. take c (drop (k * c) (concat ps))) [0..<length ps]"
    using Cons.prems by simp
  finally show ?case using Cons by simp
qed

lemma concat_chunks:
  "length data = m * c \<Longrightarrow>
     concat (map (\<lambda>k. take c (drop (k * c) data)) [0..<m]) = data"
proof (induction m arbitrary: data)
  case 0
  then show ?case by simp
next
  case (Suc m)
  have len: "length (drop c data) = m * c" using Suc.prems by simp
  have "concat (map (\<lambda>k. take c (drop (k * c) data)) [0..<Suc m])
      = take c data @ concat (map (\<lambda>k. take c (drop (Suc k * c) data)) [0..<m])"
    by (simp add: map_upt_Suc del: upt_Suc)
  also have "(\<lambda>k. take c (drop (Suc k * c) data)) = (\<lambda>k. take c (drop (k * c) (drop c data)))"
    by (simp add: add.commute)
  finally show ?case using Suc.IH [OF len] by simp
qed

lemma bytes_to_pixels_roundtrip:
  assumes "\<forall>p\<in>set pixels. length p = 4"
  shows "bytes_to_pixels (pixels_to_bytes pixels 4) 4 = Inr pixels"
proof -
  have "length (concat pixels) = length pixels * 4"
    using assms by (induction pixels) simp_all
  then have "(length (concat pixels) + 3) div 4 = length pixels" by simp
  then show ?thesis
    using chunks_concat [of pixels 4] assms
    by (simp add: bytes_to_pixels_4 pixels_to_bytes_rgba)
qed

lemma pixels_of_bytes_roundtrip:
  assumes "length data = m * 4"
  shows "\<exists>ps. bytes_to_pixels data 4 = Inr ps \<and> length ps = m \<and> (\<forall>p\<in>set ps. length p = 4)
            \<and> pixels_to_bytes ps 4 = data"
proof -
  let ?ps = "map (\<lambda>k. take 4 (drop (k * 4) data)) [0..<m]"
  have m: "(length data + 3) div 4 = m" using assms by simp
  have b: "bytes_to_pixels data 4 = Inr ?ps"
    unfolding bytes_to_pixels_4 m by (rule refl)
  have l: "\<forall>p\<in>set ?ps. length p = 4" using assms by auto
  have "pixels_to_bytes ?ps 4 = concat ?ps" by (rule pixels_to_bytes_rgba [OF l])
  also have "\<dots> = data" by (rule concat_chunks [OF assms])
  finally have e: "pixels_to_bytes ?ps 4 = data" .
  have n: "length ?ps = m" by simp
  show ?thesis using b n l e by blast
qed

text \<open>
  C6, as the specification states it, does not hold: \<open>_bytes_to_pixels\<close> has no check
  of the buffer length. On a buffer of five bytes it returns two tuples, the second of
  one byte.
\<close>

theorem bytes_to_pixels_malformed_counterexample:
  "length [1, 2, 3, 4, 5 :: byte] mod 4 \<noteq> 0
   \<and> bytes_to_pixels [1, 2, 3, 4, 5] 4 = Inr [[1, 2, 3, 4], [5]]"
  by code_simp

text \<open>
  C6, amended. For every byte buffer, \<open>_bytes_to_pixels\<close> with four channels signals no
  error: it returns one tuple for every started group of four bytes, tuple \<open>k\<close> holding
  the bytes from position \<open>4 * k\<close> up to the next three or to the end of the buffer; so
  when the length of the buffer is not divisible by four the last tuple holds the
  remaining \<open>length mod 4\<close> bytes.
\<close>

theorem bytes_to_pixels_short_last:
  "bytes_to_pixels data 4 =
     Inr (map (\<lambda>k. take 4 (drop (k * 4) data)) [0..<(length data + 3) div 4])
   \<and> (length data mod 4 \<noteq> 0 \<longrightarrow>
        length (last (map (\<lambda>k. take 4 (drop (k * 4) data)) [0..<(length data + 3) div 4]))
          = length data mod 4)"
proof -
  let ?m = "(length data + 3) div 4"
  let ?ps = "map (\<lambda>k. take 4 (drop (k * 4) data)) [0..<?m]"
  have "length (last ?ps) = length data mod 4" if r: "length data mod 4 \<noteq> 0"
  proof -
    have pos: "0 < ?m" using r by presburger
    then have "last ?ps = take 4 (drop ((?m - 1) * 4) data)"
      by (simp add: last_map last_upt)
    moreover have "length data - (?m - 1) * 4 = length data mod 4" using r by presburger
    ultimately show ?thesis by simp
  qed
  then show ?thesis using bytes_to_pixels_4 [of data] by blast
qed

theorem bytes_to_pixels_short_last_witness:
  "bytes_to_pixels [1, 2, 3, 4, 5] 4 = Inr [[1, 2, 3, 4], [5]]
   \<and> length (last [[1, 2, 3, 4], [5 :: byte]]) = 1"
  using bytes_to_pixels_short_last [of "[1, 2, 3, 4, 5]"] by (simp add: upt_conv_Cons)

section \<open>The key stream is the hash chain\<close>

lemma length_digest [simp]: "length (digest w) = 32"
  by (simp add: digest_def)

lemma length_chain_block [simp]: "length (chain_block H seed k) = 32"
  by (cases k) simp_all

lemma hash_chain_0 [simp]: "hash_chain H seed 0 = []"
  by (simp add: hash_chain_def)

lemma hash_chain_Suc: "hash_chain H seed (Suc m) = hash_chain H seed m @ chain_block H seed m"
  by (simp add: hash_chain_def)

lemma length_hash_chain [simp]: "length (hash_chain H seed m) = 32 * m"
  by (induction m) (simp_all add: hash_chain_Suc)

lemma last32_hash_chain: "last32 (hash_chain H seed (Suc m)) = chain_block H seed m"
  by (simp add: last32_def hash_chain_Suc)

lemma key_stream_loop_step:
  assumes "int (32 * m) < len"
  shows "key_stream_loop H h (hash_chain H h m) len = key_stream_loop H h (hash_chain H h (Suc m)) len"
proof (cases m)
  case 0
  then show ?thesis
    using assms key_stream_loop.simps [of H h "[]" len] by (simp add: hash_chain_Suc)
next
  case (Suc k)
  have "hash_chain H h (Suc k) @ digest (H (h @ last32 (hash_chain H h (Suc k))))
          = hash_chain H h (Suc (Suc k))"
    unfolding last32_hash_chain by (simp add: hash_chain_Suc [of H h "Suc k"])
  then show ?thesis
    using assms Suc key_stream_loop.simps [of H h "hash_chain H h (Suc k)" len] by simp
qed

lemma key_stream_loop_stop:
  assumes "\<not> int (32 * m) < len"
  shows "key_stream_loop H h (hash_chain H h m) len = hash_chain H h m"
  using assms key_stream_loop.simps [of H h "hash_chain H h m" len] by simp

lemma key_stream_loop_chain:
  "key_stream_loop H h (hash_chain H h m) len = hash_chain H h (max m ((nat len + 31) div 32))"
proof (induction "(nat len + 31) div 32 - m" arbitrary: m)
  case 0
  then have "\<not> int (32 * m) < len" by linarith
  moreover have "max m ((nat len + 31) div 32) = m" using 0 by simp
  ultimately show ?case by (simp add: key_stream_loop_stop)
next
  case (Suc d)
  then have lt: "int (32 * m) < len" by linarith
  have d: "d = (nat len + 31) div 32 - Suc m" using Suc.hyps(2) by simp
  have "max (Suc m) ((nat len + 31) div 32) = max m ((nat len + 31) div 32)"
    using Suc.hyps(2) by simp
  then show ?case
    using Suc.hyps(1) [OF d] key_stream_loop_step [OF lt] by simp
qed

lemma utf8_char_encodable:
  "\<not> (0xD800 \<le> c \<and> c \<le> 0xDFFF) \<Longrightarrow> \<exists>b. utf8_char c = Inr b"
  by (simp add: utf8_char_def)

lemma utf8_char_surrogate:
  "0xD800 \<le> c \<and> c \<le> 0xDFFF \<Longrightarrow> utf8_char c = Inl UnicodeEncodeError"
  by (simp add: utf8_char_def)

lemma utf8_char_error: "utf8_char c = Inl e \<Longrightarrow> e = UnicodeEncodeError"
  by (simp add: utf8_char_def split: if_splits)

lemma encode_utf8_error: "encode_utf8 s = Inl e \<Longrightarrow> e = UnicodeEncodeError"
proof (induction s)
  case Nil
  then show ?case by simp
next
  case (Cons c cs)
  then show ?case
    by (auto simp: bind_err_def split: sum.splits dest: utf8_char_error)
qed

lemma encode_utf8_encodable: "encodable s \<Longrightarrow> \<exists>encoded. encode_utf8 s = Inr encoded"
proof (induction s)
  case Nil
  then show ?case by simp
next
  case (Cons c cs)
  then obtain b bs where "utf8_char c = Inr b" "encode_utf8 cs = Inr bs"
    using utf8_char_encodable [of c] by (auto simp: encodable_def)
  then show ?case by simp
qed

lemma encode_utf8_surrogate: "\<not> encodable s \<Longrightarrow> encode_utf8 s = Inl UnicodeEncodeError"
proof (induction s)
  case Nil
  then show ?case by (simp add: encodable_def)
next
  case (Cons c cs)
  show ?case
  proof (cases "0xD800 \<le> c \<and> c \<le> 0xDFFF")
    case True
    then show ?thesis by (simp add: utf8_char_surrogate)
  next
    case False
    then have "\<not> encodable cs" using Cons.prems by (simp add: encodable_def)
    then have "encode_utf8 cs = Inl UnicodeEncodeError" by (rule Cons.IH)
    then show ?thesis
      by (auto simp: bind_err_def split: sum.splits dest: utf8_char_error)
  qed
qed

lemma key_stream_chain:
  assumes "encode_utf8 key = Inr encoded"
  shows "key_stream H key len =
     Inr (take (nat len) (hash_chain H (digest (H encoded)) ((nat len + 31) div 32)))"
proof -
  have "key_stream_loop H (digest (H encoded)) [] len
      = hash_chain H (digest (H encoded)) ((nat len + 31) div 32)"
    using key_stream_loop_chain [of H "digest (H encoded)" 0 len] by simp
  then show ?thesis
    using assms by (simp add: key_stream_def py_slice_to_def Let_def)
qed

lemma key_stream_Inr:
  assumes "encodable key"
  shows "\<exists>ks. key_stream H key len = Inr ks \<and> length ks = nat len"
proof -
  obtain encoded where "encode_utf8 key = Inr encoded"
    using encode_utf8_encodable [OF assms] by blast
  then show ?thesis by (simp add: key_stream_chain)
qed

lemma key_stream_unencodable:
  "\<not> encodable key \<Longrightarrow> key_stream H key len = Inl UnicodeEncodeError"
  by (simp add: key_stream_def encode_utf8_surrogate)

lemma seed_of_Inr: "encodable password \<Longrightarrow> \<exists>seed. seed_of H password = Inr seed"
  using encode_utf8_encodable [of password] by (auto simp: seed_of_def)

lemma seed_of_unencodable:
  "\<not> encodable password \<Longrightarrow> seed_of H password = Inl UnicodeEncodeError"
  by (simp add: seed_of_def encode_utf8_surrogate)

lemma encodable_password_test: "encodable password_test"
  by (simp add: encodable_def password_test_def)

lemma unencodable_password_surrogate: "\<not> encodable password_surrogate"
  by (simp add: encodable_def password_surrogate_def)

text \<open>
  C2, as the specification states it, does not hold for every password string: a
  \<open>str\<close> with a lone surrogate cannot be encoded, and \<open>_key_stream\<close> raises
  \<open>UnicodeEncodeError\<close> on it, for the length 0 too.
\<close>

theorem key_stream_surrogate_counterexample:
  "key_stream demo_sha password_surrogate 0 = Inl UnicodeEncodeError"
  using key_stream_unencodable [OF unencodable_password_surrogate] .

text \<open>
  C2, amended. For every password that can be encoded in UTF-8 and every requested
  length, \<open>_key_stream\<close> returns exactly that many bytes, and they are the first bytes of
  the hash chain built on \<open>seed = SHA-256(password)\<close>: the first block is \<open>SHA-256(seed)\<close>
  and every later block is \<open>SHA-256(seed + previous block)\<close>. For length 0 it returns the
  empty sequence. For such a password no input makes it fail or run forever. For a
  password that cannot be encoded (one with a lone surrogate) it raises
  \<open>UnicodeEncodeError\<close>, whatever the length.
\<close>

theorem key_stream_contract:
  "(encodable key \<longrightarrow>
      (\<exists>encoded ks. encode_utf8 key = Inr encoded
         \<and> key_stream H key len = Inr ks
         \<and> ks = take (nat len) (hash_chain H (digest (H encoded)) ((nat len + 31) div 32))
         \<and> length ks = nat len
         \<and> key_stream H key 0 = Inr []))
   \<and> (\<not> encodable key \<longrightarrow> key_stream H key len = Inl UnicodeEncodeError)"
proof (intro conjI impI)
  assume "encodable key"
  then obtain encoded where e: "encode_utf8 key = Inr encoded"
    using encode_utf8_encodable by blast
  show "\<exists>encoded ks. encode_utf8 key = Inr encoded
         \<and> key_stream H key len = Inr ks
         \<and> ks = take (nat len) (hash_chain H (digest (H encoded)) ((nat len + 31) div 32))
         \<and> length ks = nat len
         \<and> key_stream H key 0 = Inr []"
    using e key_stream_chain [OF e, of H len] key_stream_chain [OF e, of H 0] by simp
next
  assume "\<not> encodable key"
  then show "key_stream H key len = Inl UnicodeEncodeError" by (rule key_stream_unencodable)
qed

theorem key_stream_contract_witness:
  "\<exists>encoded ks. encode_utf8 password_test = Inr encoded
         \<and> key_stream demo_sha password_test 40 = Inr ks
         \<and> ks = take 40 (hash_chain demo_sha (digest (demo_sha encoded)) 2)
         \<and> length ks = 40
         \<and> key_stream demo_sha password_test 0 = Inr []"
  using key_stream_contract [of password_test demo_sha 40] encodable_password_test by simp

section \<open>Indexing and stores\<close>

lemma py_index_in: "0 \<le> j \<Longrightarrow> j < int (length xs) \<Longrightarrow> py_index xs j = Inr (nat j)"
  by (simp add: py_index_def)

lemma py_get_in: "0 \<le> j \<Longrightarrow> j < int (length xs) \<Longrightarrow> py_get xs j = Inr (xs ! nat j)"
  by (simp add: py_get_def py_index_in)

lemma py_set_in: "0 \<le> j \<Longrightarrow> j < int (length xs) \<Longrightarrow> py_set xs j v = Inr (xs[nat j := v])"
  by (simp add: py_set_def py_index_in)

lemma py_get_nat: "i < length xs \<Longrightarrow> py_get xs (int i) = Inr (xs ! i)"
  using py_get_in [of "int i" xs] by simp

lemma py_set_nat: "i < length xs \<Longrightarrow> py_set xs (int i) v = Inr (xs[i := v])"
  using py_set_in [of "int i" xs v] by simp

lemma length_writes [simp]: "length (writes pvs s) = length s"
  by (induction pvs s rule: writes.induct) simp_all

lemma writes_other: "p \<notin> fst ` set pvs \<Longrightarrow> writes pvs s ! p = s ! p"
  by (induction pvs s rule: writes.induct) auto

lemma writes_nth:
  "distinct (map fst pvs) \<Longrightarrow> (p, v) \<in> set pvs \<Longrightarrow> p < length s \<Longrightarrow> writes pvs s ! p = v"
proof (induction pvs s rule: writes.induct)
  case (1 s)
  then show ?case by simp
next
  case (2 p' v' pvs s)
  show ?case
  proof (cases "(p, v) = (p', v')")
    case True
    then have "p \<notin> fst ` set pvs" using "2.prems"(1) by auto
    then show ?thesis using True "2.prems"(3) by (simp add: writes_other)
  next
    case False
    then have "(p, v) \<in> set pvs" using "2.prems"(2) by auto
    then show ?thesis using 2 by simp
  qed
qed

lemma for_each_writes:
  assumes "\<And>x s. x \<in> set xs \<Longrightarrow> length s = n \<Longrightarrow> body x s = Inr (s[fst (h x) := snd (h x)])"
    and "length s = n"
  shows "for_each body xs s = Inr (writes (map h xs) s)"
  using assms
proof (induction xs arbitrary: s)
  case Nil
  then show ?case by simp
next
  case (Cons x xs)
  have "body x s = Inr (s[fst (h x) := snd (h x)])" using Cons.prems by simp
  moreover have "for_each body xs (s[fst (h x) := snd (h x)])
      = Inr (writes (map h xs) (s[fst (h x) := snd (h x)]))"
    using Cons.prems by (intro Cons.IH) simp_all
  ultimately show ?case by (cases "h x") simp
qed

section \<open>The shuffle yields a permutation\<close>

lemma shuffle_loop_mset:
  assumes "randbelow_ok rb" and "i < length x"
  shows "\<exists>y. shuffle_loop rb i x g = Inr y \<and> mset y = mset x"
  using assms(2)
proof (induction i arbitrary: x g)
  case 0
  then show ?case by simp
next
  case (Suc i)
  obtain j g' where r: "rb g (Suc i + 1) = (j, g')" by (cases "rb g (Suc i + 1)")
  have "fst (rb g (Suc i + 1)) < Suc i + 1" using assms(1) by (simp add: randbelow_ok_def)
  then have j: "j < length x" using r Suc.prems by simp
  let ?x = "x[Suc i := x ! j, j := x ! Suc i]"
  have m: "mset ?x = mset x" using mset_swap [OF j Suc.prems] .
  have "i < length ?x" using Suc.prems by simp
  from Suc.IH [OF this, of g'] obtain y where y: "shuffle_loop rb i ?x g' = Inr y" "mset y = mset ?x"
    by blast
  have g1: "py_get x (int j) = Inr (x ! j)" using j by (rule py_get_nat)
  have g2: "py_get x (int (Suc i)) = Inr (x ! Suc i)" using Suc.prems by (rule py_get_nat)
  have s1: "py_set x (int (Suc i)) (x ! j) = Inr (x[Suc i := x ! j])"
    using Suc.prems by (rule py_set_nat)
  have s2: "py_set (x[Suc i := x ! j]) (int j) (x ! Suc i) = Inr ?x"
    using j by (intro py_set_nat) simp
  have "shuffle_loop rb (Suc i) x g = shuffle_loop rb i ?x g'"
    by (simp only: shuffle_loop.simps r prod.case g1 g2 s1 s2 bind_err_Inr)
  then show ?case using y m by simp
qed

lemma random_shuffle_mset:
  assumes "randbelow_ok rb"
  shows "\<exists>y. random_shuffle rb x g = Inr y \<and> mset y = mset x"
proof (cases x)
  case Nil
  then show ?thesis by (simp add: random_shuffle_def)
next
  case (Cons a as)
  then have "length x - 1 < length x" by simp
  then show ?thesis unfolding random_shuffle_def by (rule shuffle_loop_mset [OF assms])
qed

lemma is_permutation_py_range: "is_permutation (py_range n)"
  by (auto simp: is_permutation_def py_range_def distinct_map list_all_iff)

lemma is_permutation_mset:
  assumes "mset p = mset q" and "is_permutation q"
  shows "is_permutation p"
proof -
  have "length p = length q" using assms(1) by (rule mset_eq_length)
  moreover have "set p = set q" using assms(1) by (rule mset_eq_setD)
  moreover have "distinct p = distinct q" using assms(1) by (rule mset_eq_imp_distinct_iff)
  ultimately show ?thesis using assms(2) by (simp add: is_permutation_def list_all_iff)
qed

lemma shuffle_indices_Inr:
  assumes "randbelow_ok rb"
  shows "\<exists>p. shuffle_indices mk rb n seed = Inr p \<and> mset p = mset (py_range n)"
  unfolding shuffle_indices_def Let_def by (rule random_shuffle_mset [OF assms])

lemma shuffle_indices_is_permutation:
  assumes "randbelow_ok rb"
  shows "\<exists>p. shuffle_indices mk rb n seed = Inr p \<and> length p = nat n \<and> is_permutation p"
proof -
  obtain p where p: "shuffle_indices mk rb n seed = Inr p" "mset p = mset (py_range n)"
    using shuffle_indices_Inr [OF assms] by blast
  have "length p = length (py_range n)" using p(2) by (rule mset_eq_length)
  then have "length p = nat n" by (simp add: py_range_def)
  moreover have "is_permutation p" using p(2) is_permutation_py_range by (rule is_permutation_mset)
  ultimately show ?thesis using p(1) by blast
qed

lemma demo_rb_ok: "randbelow_ok demo_rb"
  by (simp add: randbelow_ok_def demo_rb_def)

text \<open>
  C3. For every \<open>n\<close> and every seed, \<open>_shuffle_indices(n, seed)\<close> returns a list of
  length \<open>n\<close> in which every integer from 0 to \<open>n - 1\<close> appears exactly once. The
  generator is any one that keeps the contract of \<open>_randbelow\<close>.
\<close>

theorem shuffle_indices_permutation:
  assumes "randbelow_ok rb"
  shows "\<exists>p. shuffle_indices mk rb n seed = Inr p \<and> length p = nat n
           \<and> (\<forall>v. 0 \<le> v \<and> v < n \<longrightarrow> count_list p v = 1)"
proof -
  obtain p where p: "shuffle_indices mk rb n seed = Inr p" "mset p = mset (py_range n)"
    using shuffle_indices_Inr [OF assms] by blast
  have "length p = length (py_range n)" using p(2) by (rule mset_eq_length)
  then have l: "length p = nat n" by (simp add: py_range_def)
  have "count_list p v = 1" if v: "0 \<le> v \<and> v < n" for v
  proof -
    have d: "distinct (py_range n)" by (simp add: py_range_def distinct_map)
    have "v \<in> set (py_range n)" using v by (auto simp: py_range_def image_iff intro: bexI [of _ "nat v"])
    then have "count (mset (py_range n)) v = 1" using d by (simp add: distinct_count_atmost_1)
    then show ?thesis using p(2) by (metis count_mset)
  qed
  then show ?thesis using p(1) l by blast
qed

theorem shuffle_indices_permutation_witness:
  "\<exists>p. shuffle_indices demo_mk demo_rb 8 5 = Inr p \<and> length p = 8
           \<and> (\<forall>v. 0 \<le> v \<and> v < 8 \<longrightarrow> count_list p v = 1)"
  using shuffle_indices_permutation [of demo_rb demo_mk 8 5] demo_rb_ok by simp

section \<open>The inverse permutation\<close>

lemma is_permutation_range: "is_permutation p \<Longrightarrow> j \<in> set p \<Longrightarrow> 0 \<le> j \<and> j < int (length p)"
  by (simp add: is_permutation_def list_all_iff)

lemma is_permutation_nth:
  "is_permutation p \<Longrightarrow> k < length p \<Longrightarrow> 0 \<le> p ! k \<and> p ! k < int (length p)"
  using is_permutation_range [of p "p ! k"] by simp

lemma is_permutation_distinct_nat: "is_permutation p \<Longrightarrow> distinct (map nat p)"
proof -
  assume p: "is_permutation p"
  then have "inj_on nat (set p)"
    by (intro inj_onI) (auto dest!: is_permutation_range [OF p])
  moreover have "distinct p" using p by (simp add: is_permutation_def)
  ultimately show ?thesis by (simp add: distinct_map)
qed

lemma is_permutation_set_nat:
  assumes "is_permutation p"
  shows "set (map nat p) = {0..<length p}"
proof (rule card_subset_eq)
  show "finite {0..<length p}" by simp
  show "set (map nat p) \<subseteq> {0..<length p}"
    using is_permutation_range [OF assms] by (auto simp: nat_less_iff)
  have "card (set (map nat p)) = length (map nat p)"
    using is_permutation_distinct_nat [OF assms] by (rule distinct_card)
  then show "card (set (map nat p)) = card {0..<length p}" by simp
qed

lemma is_permutation_onto:
  assumes "is_permutation p" and "i < length p"
  shows "\<exists>k<length p. nat (p ! k) = i"
proof -
  have "i \<in> set (map nat p)" using is_permutation_set_nat [OF assms(1)] assms(2) by simp
  then obtain k where "k < length (map nat p)" "map nat p ! k = i"
    by (auto simp: in_set_conv_nth)
  then show ?thesis by auto
qed

lemma nth_py_enumerate: "k < length xs \<Longrightarrow> py_enumerate xs ! k = (int k, xs ! k)"
  by (simp add: py_enumerate_def)

lemma length_py_enumerate [simp]: "length (py_enumerate xs) = length xs"
  by (simp add: py_enumerate_def)

lemma set_py_enumerate: "(i, x) \<in> set (py_enumerate xs) \<Longrightarrow> x \<in> set xs \<and> 0 \<le> i \<and> i < int (length xs) \<and> xs ! nat i = x"
  by (auto simp: py_enumerate_def in_set_zip)

lemma map_snd_py_enumerate: "map snd (py_enumerate xs) = xs"
  by (simp add: py_enumerate_def)

lemma unshuffle_indices_writes:
  assumes "is_permutation p"
  shows "unshuffle_indices p =
    Inr (writes (map (\<lambda>(i, j). (nat j, i)) (py_enumerate p)) (replicate (length p) 0))"
  unfolding unshuffle_indices_def
proof (rule for_each_writes [where n = "length p"])
  fix x and s :: "int list"
  assume x: "x \<in> set (py_enumerate p)" and s: "length s = length p"
  obtain i j where ij: "x = (i, j)" by (cases x)
  then have "j \<in> set p" using x set_py_enumerate by fastforce
  then have "0 \<le> j \<and> j < int (length s)" using is_permutation_range [OF assms] s by simp
  then show "(case x of (i, j) \<Rightarrow> \<lambda>inverse_idx. py_set inverse_idx j i) s =
       Inr (s[fst (case x of (i, j) \<Rightarrow> (nat j, i)) := snd (case x of (i, j) \<Rightarrow> (nat j, i))])"
    using ij by (simp add: py_set_in)
qed simp

lemma unshuffle_indices_inverse_nat:
  assumes "is_permutation p"
  shows "\<exists>q. unshuffle_indices p = Inr q \<and> length q = length p \<and> is_permutation q
           \<and> (\<forall>k<length p. q ! nat (p ! k) = int k)
           \<and> (\<forall>i<length p. p ! nat (q ! i) = int i)"
proof -
  let ?pvs = "map (\<lambda>(i, j). (nat j, i)) (py_enumerate p)"
  let ?q = "writes ?pvs (replicate (length p) 0)"
  have fst: "map fst ?pvs = map nat p"
    by (rule nth_equalityI) (simp_all add: nth_py_enumerate)
  have d: "distinct (map fst ?pvs)"
    unfolding fst by (rule is_permutation_distinct_nat [OF assms])
  have left: "?q ! nat (p ! k) = int k" if k: "k < length p" for k
  proof (rule writes_nth [OF d])
    have "?pvs ! k = (nat (p ! k), int k)" using k by (simp add: nth_py_enumerate)
    moreover have "k < length ?pvs" using k by simp
    ultimately show "(nat (p ! k), int k) \<in> set ?pvs" by (metis nth_mem)
    show "nat (p ! k) < length (replicate (length p) (0::int))"
      using is_permutation_nth [OF assms k] by (simp add: nat_less_iff)
  qed
  have right: "p ! nat (?q ! i) = int i" if i: "i < length p" for i
  proof -
    obtain k where k: "k < length p" "nat (p ! k) = i"
      using is_permutation_onto [OF assms i] by blast
    have "?q ! i = int k" using left [OF k(1)] k(2) by simp
    moreover have "p ! k = int i" using k(2) is_permutation_nth [OF assms k(1)] by auto
    ultimately show ?thesis by simp
  qed
  have rng: "0 \<le> ?q ! i \<and> ?q ! i < int (length ?q)" if i: "i < length p" for i
  proof -
    obtain k where k: "k < length p" "nat (p ! k) = i"
      using is_permutation_onto [OF assms i] by blast
    have "?q ! i = int k" using left [OF k(1)] k(2) by simp
    then show ?thesis using k(1) by simp
  qed
  have dq: "distinct ?q"
  proof (subst distinct_conv_nth, intro allI impI)
    fix i j assume "i < length ?q" "j < length ?q" "i \<noteq> j"
    then have "int i \<noteq> int j" "p ! nat (?q ! i) = int i" "p ! nat (?q ! j) = int j"
      using right by simp_all
    then show "?q ! i \<noteq> ?q ! j" by metis
  qed
  have "is_permutation ?q"
    unfolding is_permutation_def list_all_length using dq rng by simp
  then show ?thesis
    using unshuffle_indices_writes [OF assms] left right by simp
qed

text \<open>
  C4. For every list \<open>p\<close> that is a permutation of \<open>0..n-1\<close>, \<open>_unshuffle_indices(p)\<close>
  returns a list \<open>q\<close> of the same length that is the two-sided inverse of \<open>p\<close>:
  \<open>p[q[i]] == i\<close> and \<open>q[p[i]] == i\<close> for every index \<open>i\<close>, both read with Python's
  indexing and without an error.
\<close>

theorem unshuffle_indices_inverse:
  assumes "is_permutation p"
  shows "\<exists>q. unshuffle_indices p = Inr q \<and> length q = length p
           \<and> (\<forall>i<length p. bind_err (py_get q (int i)) (py_get p) = Inr (int i)
                            \<and> bind_err (py_get p (int i)) (py_get q) = Inr (int i))"
proof -
  obtain q where q: "unshuffle_indices p = Inr q" "length q = length p" "is_permutation q"
      "\<forall>k<length p. q ! nat (p ! k) = int k" "\<forall>i<length p. p ! nat (q ! i) = int i"
    using unshuffle_indices_inverse_nat [OF assms] by blast
  have "bind_err (py_get q (int i)) (py_get p) = Inr (int i)
      \<and> bind_err (py_get p (int i)) (py_get q) = Inr (int i)" if i: "i < length p" for i
  proof -
    have qi: "0 \<le> q ! i \<and> q ! i < int (length p)"
      using is_permutation_nth [OF q(3), of i] i q(2) by simp
    have pi: "0 \<le> p ! i \<and> p ! i < int (length q)"
      using is_permutation_nth [OF assms i] q(2) by simp
    have "py_get q (int i) = Inr (q ! i)" using i q(2) by (simp add: py_get_nat)
    moreover have "py_get p (q ! i) = Inr (p ! nat (q ! i))" using qi by (simp add: py_get_in)
    moreover have "py_get p (int i) = Inr (p ! i)" using i by (simp add: py_get_nat)
    moreover have "py_get q (p ! i) = Inr (q ! nat (p ! i))" using pi by (simp add: py_get_in)
    ultimately show ?thesis using q(4,5) i by simp
  qed
  then show ?thesis using q(1,2) by blast
qed

theorem unshuffle_indices_inverse_witness:
  "\<exists>q. unshuffle_indices [2, 0, 3, 1] = Inr q \<and> length q = length [2, 0, 3, 1 :: int]
           \<and> (\<forall>i<length [2, 0, 3, 1 :: int].
                  bind_err (py_get q (int i)) (py_get [2, 0, 3, 1]) = Inr (int i)
                \<and> bind_err (py_get [2, 0, 3, 1] (int i)) (py_get q) = Inr (int i))"
  using unshuffle_indices_inverse [of "[2, 0, 3, 1]"] by (simp add: is_permutation_def)

section \<open>The passes over the buffer\<close>

lemma for_each_append:
  "for_each body (xs @ ys) s = bind_err (for_each body xs s) (for_each body ys)"
  by (induction xs arbitrary: s) (simp_all add: bind_err_def split: sum.splits)

lemma xor_pass_prefix:
  assumes "length flat = n" and "length key_bytes = n" and "k \<le> n"
  shows "for_each (\<lambda>i flat.
           bind_err (py_get flat i) (\<lambda>f.
           bind_err (py_get key_bytes i) (\<lambda>k.
           py_set flat i (f XOR k))))
         (map int [0..<k]) flat
       = Inr (map2 (XOR) (take k flat) (take k key_bytes) @ drop k flat)"
  using assms(3)
proof (induction k)
  case 0
  then show ?case by simp
next
  case (Suc k)
  let ?s = "map2 (XOR) (take k flat) (take k key_bytes) @ drop k flat"
  have k: "k < n" using Suc.prems by simp
  have len: "length ?s = n" using assms k by simp
  have g1: "py_get ?s (int k) = Inr (flat ! k)"
    using k assms len by (simp add: py_get_nat nth_append)
  have g2: "py_get key_bytes (int k) = Inr (key_bytes ! k)"
    using k assms by (simp add: py_get_nat)
  have s1: "py_set ?s (int k) (flat ! k XOR key_bytes ! k) = Inr (?s[k := flat ! k XOR key_bytes ! k])"
    using k len by (simp add: py_set_nat)
  have upd: "?s[k := flat ! k XOR key_bytes ! k]
      = map2 (XOR) (take (Suc k) flat) (take (Suc k) key_bytes) @ drop (Suc k) flat"
    using k assms
    by (intro nth_equalityI) (auto simp: nth_append nth_list_update less_Suc_eq)
  have "for_each (\<lambda>i flat.
           bind_err (py_get flat i) (\<lambda>f.
           bind_err (py_get key_bytes i) (\<lambda>k.
           py_set flat i (f XOR k))))
         (map int [0..<k]) flat = Inr ?s"
    using Suc by simp
  then show ?case
    by (simp only: upt_Suc_append [OF le0] map_append list.map for_each_append
          bind_err_Inr for_each.simps g1 g2 s1 upd)
qed

lemma xor_pass_map2:
  assumes "length flat = n" and "length key_bytes = n"
  shows "xor_pass flat key_bytes n = Inr (map2 (XOR) flat key_bytes)"
  using xor_pass_prefix [OF assms, of n] assms by (simp add: xor_pass_def py_range_def)

lemma map2_xor_twice:
  "length (xs :: byte list) = length ks \<Longrightarrow> map2 (XOR) (map2 (XOR) xs ks) ks = xs"
  by (rule nth_equalityI) (simp_all add: bit.xor_self xor.assoc)

lemma writes_permutation:
  assumes "is_permutation r" and "length r = n"
  shows "length (writes (map (\<lambda>i. (nat (r ! i), v i)) [0..<n]) (replicate n z)) = n
       \<and> (\<forall>i<n. writes (map (\<lambda>i. (nat (r ! i), v i)) [0..<n]) (replicate n z) ! nat (r ! i) = v i)"
proof -
  let ?pvs = "map (\<lambda>i. (nat (r ! i), v i)) [0..<n]"
  have fst: "map fst ?pvs = map nat r"
    using assms(2) by (intro nth_equalityI) simp_all
  have d: "distinct (map fst ?pvs)"
    unfolding fst by (rule is_permutation_distinct_nat [OF assms(1)])
  have "writes ?pvs (replicate n z) ! nat (r ! i) = v i" if i: "i < n" for i
  proof (rule writes_nth [OF d])
    have "?pvs ! i = (nat (r ! i), v i)" using i by simp
    moreover have "i < length ?pvs" using i by simp
    ultimately show "(nat (r ! i), v i) \<in> set ?pvs" by (metis nth_mem)
    show "nat (r ! i) < length (replicate n z)"
      using is_permutation_nth [OF assms(1), of i] i assms(2) by (simp add: nat_less_iff)
  qed
  then show ?thesis by simp
qed

lemma scatter_writes:
  assumes "is_permutation p" and "length p = n" and "length flat = n"
  shows "scatter p flat n = Inr (writes (map (\<lambda>i. (nat (p ! i), flat ! i)) [0..<n]) (replicate n 0))"
proof -
  have "scatter p flat n =
      Inr (writes (map (\<lambda>(i, j). (nat j, flat ! nat i)) (py_enumerate p)) (replicate n 0))"
    unfolding scatter_def
  proof (rule for_each_writes [where n = n])
    fix x and s :: "byte list"
    assume x: "x \<in> set (py_enumerate p)" and s: "length s = n"
    obtain i j where ij: "x = (i, j)" by (cases x)
    then have m: "j \<in> set p \<and> 0 \<le> i \<and> i < int (length p)"
      using x set_py_enumerate by fastforce
    then have "0 \<le> j \<and> j < int (length s)"
      using is_permutation_range [OF assms(1)] s assms(2) by simp
    then show "(case x of (i, j) \<Rightarrow> \<lambda>shuffled. bind_err (py_get flat i) (\<lambda>b. py_set shuffled j b)) s =
         Inr (s[fst (case x of (i, j) \<Rightarrow> (nat j, flat ! nat i))
               := snd (case x of (i, j) \<Rightarrow> (nat j, flat ! nat i))])"
      using ij m assms(2,3) by (simp add: py_set_in py_get_in)
  qed simp
  moreover have "map (\<lambda>(i, j). (nat j, flat ! nat i)) (py_enumerate p)
      = map (\<lambda>i. (nat (p ! i), flat ! i)) [0..<n]"
    using assms(2) by (intro nth_equalityI) (simp_all add: nth_py_enumerate)
  ultimately show ?thesis by simp
qed

lemma unscatter_writes:
  assumes "is_permutation q" and "length q = n" and "length flat = n"
  shows "unscatter q flat n = Inr (writes (map (\<lambda>i. (nat (q ! i), flat ! i)) [0..<n]) (replicate n 0))"
proof -
  have "unscatter q flat n =
      Inr (writes (map (\<lambda>i. (nat (q ! nat i), flat ! nat i)) (py_range (int n))) (replicate n 0))"
    unfolding unscatter_def
  proof (rule for_each_writes [where n = n])
    fix i and s :: "byte list"
    assume "i \<in> set (py_range (int n))" and s: "length s = n"
    then have i: "0 \<le> i \<and> i < int n" by (auto simp: py_range_def)
    then have "nat i < length q" using assms(2) by (simp add: nat_less_iff)
    then have "0 \<le> q ! nat i \<and> q ! nat i < int (length s)"
      using is_permutation_nth [OF assms(1)] s assms(2) by simp
    then show "bind_err (py_get flat i) (\<lambda>b. bind_err (py_get q i) (\<lambda>q. py_set s q b)) =
         Inr (s[fst (nat (q ! nat i), flat ! nat i) := snd (nat (q ! nat i), flat ! nat i)])"
      using i assms(2,3) by (simp add: py_set_in py_get_in)
  qed simp
  moreover have "map (\<lambda>i. (nat (q ! nat i), flat ! nat i)) (py_range (int n))
      = map (\<lambda>i. (nat (q ! i), flat ! i)) [0..<n]"
    by (simp add: py_range_def comp_def)
  ultimately show ?thesis by simp
qed

lemma scatter_unscatter:
  assumes "is_permutation p" and "length p = n" and "length flat = n"
  shows "\<exists>q sh. unshuffle_indices p = Inr q \<and> scatter p flat n = Inr sh \<and> length sh = n
           \<and> unscatter q sh n = Inr flat"
proof -
  obtain q where q: "unshuffle_indices p = Inr q" "length q = length p" "is_permutation q"
      "\<forall>k<length p. q ! nat (p ! k) = int k"
    using unshuffle_indices_inverse_nat [OF assms(1)] by blast
  define sh where "sh = writes (map (\<lambda>i. (nat (p ! i), flat ! i)) [0..<n]) (replicate n 0)"
  define un where "un = writes (map (\<lambda>i. (nat (q ! i), sh ! i)) [0..<n]) (replicate n 0)"
  have sh: "length sh = n" "\<forall>i<n. sh ! nat (p ! i) = flat ! i"
    unfolding sh_def using writes_permutation [OF assms(1,2), of "\<lambda>i. flat ! i" 0] by simp_all
  have qn: "length q = n" using q(2) assms(2) by simp
  have un: "length un = n" "\<forall>i<n. un ! nat (q ! i) = sh ! i"
    unfolding un_def using writes_permutation [OF q(3) qn, of "\<lambda>i. sh ! i" 0] by simp_all
  have "un = flat"
  proof (rule nth_equalityI)
    show "length un = length flat" using un(1) assms(3) by simp
    fix k assume "k < length un"
    then have k: "k < n" using un(1) by simp
    have r: "nat (p ! k) < n"
      using is_permutation_nth [OF assms(1), of k] k assms(2) by (simp add: nat_less_iff)
    have "q ! nat (p ! k) = int k" using q(4) k assms(2) by simp
    moreover have "un ! nat (q ! nat (p ! k)) = sh ! nat (p ! k)" using un(2) r by blast
    ultimately have "un ! k = sh ! nat (p ! k)" by simp
    then show "un ! k = flat ! k" using sh(2) k by simp
  qed
  moreover have "scatter p flat n = Inr sh"
    unfolding sh_def by (rule scatter_writes [OF assms])
  moreover have "unscatter q sh n = Inr un"
    unfolding un_def by (rule unscatter_writes [OF q(3) qn sh(1)])
  ultimately show ?thesis using q(1) sh(1) by blast
qed

section \<open>Encoding and decoding\<close>

lemma length_flat4: "length (pixels_to_bytes pixels 4) = length pixels * 4"
  by (simp add: length_pixels_to_bytes)

lemma encrypt_pixels_no_shuffle:
  assumes "key_stream H password (int (length (pixels_to_bytes pixels 4))) = Inr ks"
    and "length ks = length (pixels_to_bytes pixels 4)"
  shows "encrypt_pixels H mk rb pixels password False =
     bytes_to_pixels (map2 (XOR) (pixels_to_bytes pixels 4) ks) 4"
  using assms by (simp add: encrypt_pixels_def Let_def xor_pass_map2)

lemma decrypt_pixels_no_shuffle:
  assumes "key_stream H password (int (length (pixels_to_bytes pixels 4))) = Inr ks"
    and "length ks = length (pixels_to_bytes pixels 4)"
  shows "decrypt_pixels H mk rb pixels password False =
     bytes_to_pixels (map2 (XOR) (pixels_to_bytes pixels 4) ks) 4"
  using assms by (simp add: decrypt_pixels_def Let_def xor_pass_map2)

lemma encrypt_pixels_shuffle:
  assumes "key_stream H password (int (length (pixels_to_bytes pixels 4))) = Inr ks"
    and "length ks = length (pixels_to_bytes pixels 4)"
    and "seed_of H password = Inr seed"
    and "shuffle_indices mk rb (int (length (pixels_to_bytes pixels 4))) seed = Inr p"
  shows "encrypt_pixels H mk rb pixels password True =
     bind_err (scatter p (map2 (XOR) (pixels_to_bytes pixels 4) ks)
        (length (pixels_to_bytes pixels 4))) (\<lambda>flat. bytes_to_pixels flat 4)"
  using assms by (simp add: encrypt_pixels_def Let_def xor_pass_map2)

lemma decrypt_pixels_shuffle:
  assumes "key_stream H password (int (length (pixels_to_bytes pixels 4))) = Inr ks"
    and "length ks = length (pixels_to_bytes pixels 4)"
    and "seed_of H password = Inr seed"
    and "shuffle_indices mk rb (int (length (pixels_to_bytes pixels 4))) seed = Inr p"
    and "unshuffle_indices p = Inr q"
    and "unscatter q (pixels_to_bytes pixels 4) (length (pixels_to_bytes pixels 4)) = Inr flat"
    and "length flat = length (pixels_to_bytes pixels 4)"
  shows "decrypt_pixels H mk rb pixels password True = bytes_to_pixels (map2 (XOR) flat ks) 4"
  using assms by (simp add: decrypt_pixels_def Let_def xor_pass_map2)

lemma encrypt_pixels_unencodable:
  "\<not> encodable password \<Longrightarrow>
     encrypt_pixels H mk rb pixels password shuffle = Inl UnicodeEncodeError"
  by (simp add: encrypt_pixels_def Let_def key_stream_unencodable)

lemma decrypt_pixels_unencodable:
  "\<not> encodable password \<Longrightarrow>
     decrypt_pixels H mk rb pixels password was_shuffled = Inl UnicodeEncodeError"
  by (simp add: decrypt_pixels_def Let_def key_stream_unencodable seed_of_unencodable)

lemma encrypt_pixels_Inr:
  assumes "shuffle \<longrightarrow> randbelow_ok rb" and "encodable password"
  shows "\<exists>enc. encrypt_pixels H mk rb pixels password shuffle = Inr enc
           \<and> length enc = length pixels \<and> (\<forall>p\<in>set enc. length p = 4)"
proof -
  define flat where "flat = pixels_to_bytes pixels 4"
  define n where "n = length flat"
  obtain ks where ks: "key_stream H password (int n) = Inr ks" "length ks = n"
    using key_stream_Inr [OF assms(2), of H "int n"] by auto
  define x where "x = map2 (XOR) flat ks"
  have n: "n = length pixels * 4" by (simp add: n_def flat_def length_flat4)
  have lx: "length x = n" by (simp add: x_def n_def ks(2) [unfolded n_def])
  show ?thesis
  proof (cases shuffle)
    case False
    have "encrypt_pixels H mk rb pixels password False = bytes_to_pixels x 4"
      unfolding x_def flat_def
      by (rule encrypt_pixels_no_shuffle) (use ks in \<open>simp_all add: n_def flat_def\<close>)
    moreover have "length x = length pixels * 4" using lx n by simp
    ultimately show ?thesis using False pixels_of_bytes_roundtrip [of x "length pixels"] by auto
  next
    case True
    then have ok: "randbelow_ok rb" using assms by simp
    obtain seed where seed: "seed_of H password = Inr seed"
      using seed_of_Inr [OF assms(2)] by blast
    obtain p where p: "shuffle_indices mk rb (int n) seed = Inr p"
        "length p = nat (int n)" "is_permutation p"
      using shuffle_indices_is_permutation [OF ok] by blast
    have lp: "length p = n" using p(2) by simp
    obtain sh where sh: "scatter p x n = Inr sh" "length sh = n"
      using scatter_unscatter [OF p(3) lp lx] by blast
    have "encrypt_pixels H mk rb pixels password True =
        bind_err (scatter p x n) (\<lambda>flat. bytes_to_pixels flat 4)"
      unfolding x_def n_def flat_def
      by (rule encrypt_pixels_shuffle [where seed = seed])
         (use ks seed p(1) in \<open>simp_all add: n_def flat_def\<close>)
    then have "encrypt_pixels H mk rb pixels password True = bytes_to_pixels sh 4"
      using sh(1) by simp
    moreover have "length sh = length pixels * 4" using sh(2) n by simp
    ultimately show ?thesis using True pixels_of_bytes_roundtrip [of sh "length pixels"] by auto
  qed
qed


lemma decrypt_encrypt_pixels:
  assumes "shuffle \<longrightarrow> randbelow_ok rb" and "\<forall>p\<in>set pixels. length p = 4"
    and "encodable password"
  shows "\<exists>enc ks. key_stream H password (int (length (pixels_to_bytes pixels 4))) = Inr ks
           \<and> encrypt_pixels H mk rb pixels password shuffle = Inr enc
           \<and> (\<not> shuffle \<longrightarrow> pixels_to_bytes enc 4 = map2 (XOR) (pixels_to_bytes pixels 4) ks)
           \<and> decrypt_pixels H mk rb enc password shuffle = Inr pixels"
proof -
  define flat where "flat = pixels_to_bytes pixels 4"
  define n where "n = length flat"
  obtain ks where ks: "key_stream H password (int n) = Inr ks" "length ks = n"
    using key_stream_Inr [OF assms(3), of H "int n"] by auto
  define x where "x = map2 (XOR) flat ks"
  have n: "n = length pixels * 4" by (simp add: n_def flat_def length_flat4)
  have lf: "length flat = n" by (simp add: n_def)
  have lx: "length x = n" by (simp add: x_def ks(2) lf)
  have unmask: "map2 (XOR) x ks = flat"
    unfolding x_def by (rule map2_xor_twice) (simp add: ks(2) lf)
  have orig: "bytes_to_pixels flat 4 = Inr pixels"
    unfolding flat_def by (rule bytes_to_pixels_roundtrip [OF assms(2)])
  show ?thesis
  proof (cases shuffle)
    case False
    have e: "encrypt_pixels H mk rb pixels password False = bytes_to_pixels x 4"
      unfolding x_def flat_def
      by (rule encrypt_pixels_no_shuffle) (use ks in \<open>simp_all add: n_def flat_def\<close>)
    obtain enc where enc: "bytes_to_pixels x 4 = Inr enc" "pixels_to_bytes enc 4 = x"
      using pixels_of_bytes_roundtrip [of x "length pixels"] lx n by auto
    have "decrypt_pixels H mk rb enc password False = bytes_to_pixels (map2 (XOR) x ks) 4"
      using decrypt_pixels_no_shuffle [of H password enc ks mk rb] enc(2) ks lx by simp
    then have "decrypt_pixels H mk rb enc password False = Inr pixels"
      using unmask orig by simp
    then show ?thesis
      using False e enc ks(1) by (auto simp: x_def n_def flat_def)
  next
    case True
    then have ok: "randbelow_ok rb" using assms by simp
    obtain seed where seed: "seed_of H password = Inr seed"
      using seed_of_Inr [OF assms(3)] by blast
    obtain p where p: "shuffle_indices mk rb (int n) seed = Inr p"
        "length p = nat (int n)" "is_permutation p"
      using shuffle_indices_is_permutation [OF ok] by blast
    have lp: "length p = n" using p(2) by simp
    obtain q sh where sh: "unshuffle_indices p = Inr q" "scatter p x n = Inr sh" "length sh = n"
        "unscatter q sh n = Inr x"
      using scatter_unscatter [OF p(3) lp lx] by blast
    have "encrypt_pixels H mk rb pixels password True =
        bind_err (scatter p x n) (\<lambda>flat. bytes_to_pixels flat 4)"
      unfolding x_def n_def flat_def
      by (rule encrypt_pixels_shuffle [where seed = seed])
         (use ks seed p(1) in \<open>simp_all add: n_def flat_def\<close>)
    then have e: "encrypt_pixels H mk rb pixels password True = bytes_to_pixels sh 4"
      using sh(2) by simp
    obtain enc where enc: "bytes_to_pixels sh 4 = Inr enc" "pixels_to_bytes enc 4 = sh"
      using pixels_of_bytes_roundtrip [of sh "length pixels"] sh(3) n by auto
    have "decrypt_pixels H mk rb enc password True = bytes_to_pixels (map2 (XOR) x ks) 4"
      by (rule decrypt_pixels_shuffle [where p = p and q = q and seed = seed])
         (use ks seed p(1) sh lx in \<open>simp_all add: enc(2)\<close>)
    then have "decrypt_pixels H mk rb enc password True = Inr pixels"
      using unmask orig by simp
    then show ?thesis
      using True e enc(1) ks(1) by (auto simp: n_def flat_def)
  qed
qed

lemma encrypt_pixels_empty:
  "encodable password \<Longrightarrow> encrypt_pixels H mk rb [] password shuffle = Inr []"
  using encrypt_pixels_Inr [of False rb password H mk "[]"]
        key_stream_Inr [of password H 0] seed_of_Inr [of password H]
  by (auto simp add: encrypt_pixels_def Let_def pixels_to_bytes_def xor_pass_def
      py_range_def shuffle_indices_def random_shuffle_def scatter_def py_enumerate_def
      bytes_to_pixels_4)

lemma decrypt_pixels_empty:
  "encodable password \<Longrightarrow> decrypt_pixels H mk rb [] password was_shuffled = Inr []"
  using key_stream_Inr [of password H 0] seed_of_Inr [of password H]
  by (auto simp add: decrypt_pixels_def Let_def pixels_to_bytes_def xor_pass_def
      py_range_def shuffle_indices_def random_shuffle_def unshuffle_indices_def unscatter_def
      py_enumerate_def bytes_to_pixels_4)

section \<open>Properties of the transform\<close>

text \<open>
  C1. Round trip. For every list of RGBA pixels (4-tuples of bytes), every password and
  either value of the shuffle flag: encoding succeeds whenever the password can be
  encoded, and decoding its result with the same password and flag then succeeds and
  returns the original pixels exactly. With a password that cannot be encoded, encoding
  raises and gives no result to decode.
\<close>

theorem encode_decode_roundtrip:
  assumes "randbelow_ok rb" and "\<forall>p\<in>set pixels. length p = 4"
  shows "(encodable password \<longrightarrow>
            (\<exists>enc. encrypt_pixels H mk rb pixels password shuffle = Inr enc
               \<and> decrypt_pixels H mk rb enc password shuffle = Inr pixels))
       \<and> (\<not> encodable password \<longrightarrow>
            encrypt_pixels H mk rb pixels password shuffle = Inl UnicodeEncodeError)"
  using decrypt_encrypt_pixels [of shuffle rb pixels password H mk] assms
    encrypt_pixels_unencodable [of password H mk rb pixels shuffle]
  by blast

theorem encode_decode_roundtrip_witness:
  "\<exists>enc. encrypt_pixels demo_sha demo_mk demo_rb
             [[0, 0, 0, 255], [10, 20, 30, 255], [255, 255, 255, 0], [1, 2, 3, 4]]
             password_test True
             = Inr enc
       \<and> decrypt_pixels demo_sha demo_mk demo_rb enc password_test True
             = Inr [[0, 0, 0, 255], [10, 20, 30, 255], [255, 255, 255, 0], [1, 2, 3, 4]]"
  using encode_decode_roundtrip [of demo_rb
      "[[0, 0, 0, 255], [10, 20, 30, 255], [255, 255, 255, 0], [1, 2, 3, 4]]"
      password_test demo_sha demo_mk True] demo_rb_ok encodable_password_test
  by simp

text \<open>
  C5. Without the shuffle, encoding yields exactly the byte-wise XOR of the flattened
  pixels with the bytes \<open>_key_stream(password, n)\<close> returns, every byte at its own
  position, whatever the random generator is; decoding that result without the shuffle
  returns the original pixels. With a password that cannot be encoded, \<open>_key_stream\<close>
  and with it the encoding raise.
\<close>

theorem no_shuffle_is_xor:
  assumes "\<forall>p\<in>set pixels. length p = 4"
  shows "(encodable password \<longrightarrow>
            (\<exists>enc ks. key_stream H password (int (length (pixels_to_bytes pixels 4))) = Inr ks
               \<and> encrypt_pixels H mk rb pixels password False = Inr enc
               \<and> pixels_to_bytes enc 4 = map2 (XOR) (pixels_to_bytes pixels 4) ks
               \<and> decrypt_pixels H mk rb enc password False = Inr pixels))
       \<and> (\<not> encodable password \<longrightarrow>
            encrypt_pixels H mk rb pixels password False = Inl UnicodeEncodeError)"
  using decrypt_encrypt_pixels [of False rb pixels password H mk] assms
    encrypt_pixels_unencodable [of password H mk rb pixels False]
  by blast

theorem no_shuffle_is_xor_witness:
  "\<exists>enc ks. key_stream demo_sha password_test
               (int (length (pixels_to_bytes [[10, 20, 30, 255], [1, 2, 3, 4]] 4))) = Inr ks
           \<and> encrypt_pixels demo_sha demo_mk demo_rb [[10, 20, 30, 255], [1, 2, 3, 4]]
               password_test False = Inr enc
           \<and> pixels_to_bytes enc 4 =
               map2 (XOR) (pixels_to_bytes [[10, 20, 30, 255], [1, 2, 3, 4]] 4) ks
           \<and> decrypt_pixels demo_sha demo_mk demo_rb enc password_test False
               = Inr [[10, 20, 30, 255], [1, 2, 3, 4]]"
  using no_shuffle_is_xor [of "[[10, 20, 30, 255], [1, 2, 3, 4]]" password_test
      demo_sha demo_mk demo_rb] encodable_password_test
  by simp

section \<open>Whole images\<close>

lemma wf_image_empty: "wf_image img \<Longrightarrow> width img = 0 \<or> height img = 0 \<Longrightarrow> getdata img = []"
  by (auto simp: wf_image_def)



lemma save_png_empty: "width img = 0 \<or> height img = 0 \<Longrightarrow> save_png img = Inl ValueError"
  by (simp add: save_png_def)


lemma encrypt_image_empty:
  assumes "encodable password" and "wf_image img" and "width img = 0 \<or> height img = 0"
  shows "encrypt_image H mk rb (Image_file img) out_writable password shuffle
           = Inl (if out_writable then ValueError else OSError)"
proof -
  have "getdata (convert_rgba img) = []"
    using wf_image_empty [OF assms(2,3)] by (simp add: convert_rgba_def)
  then show ?thesis
    using assms(3) encrypt_pixels_empty [OF assms(1), of H mk rb shuffle]
    by (simp add: encrypt_image_def Let_def convert_rgba_def save_png_def new_image_def)
qed

lemma decrypt_image_empty:
  assumes "encodable password" and "wf_image img" and "width img = 0 \<or> height img = 0"
  shows "decrypt_image H mk rb (Image_file img) out_writable password shuffle
           = Inl (if out_writable then ValueError else OSError)"
proof -
  have "getdata (convert_rgba img) = []"
    using wf_image_empty [OF assms(2,3)] by (simp add: convert_rgba_def)
  then show ?thesis
    using assms(3) decrypt_pixels_empty [OF assms(1), of H mk rb shuffle]
    by (simp add: decrypt_image_def Let_def convert_rgba_def save_png_def new_image_def)
qed


lemma decrypt_image_unencodable:
  "\<not> encodable password \<Longrightarrow>
     decrypt_image H mk rb (Image_file img) out_writable password shuffle = Inl UnicodeEncodeError"
  by (simp add: decrypt_image_def Let_def decrypt_pixels_unencodable)



text \<open>
  C8, as the specification states it, does not hold for every password, nor for the
  functions as a whole: on an image with no pixels the transform raises
  \<open>UnicodeEncodeError\<close> when the password cannot be encoded, and with the password
  \<open>"test"\<close> and an output path that can be written \<open>encrypt_image\<close> raises \<open>ValueError\<close>
  when it saves the empty image.
\<close>

theorem empty_image_counterexample:
  "encrypt_pixels demo_sha demo_mk demo_rb [] password_surrogate True = Inl UnicodeEncodeError
   \<and> encrypt_image demo_sha demo_mk demo_rb
        (Image_file \<lparr>width = 0, height = 3, mode = Mode_RGBA, getdata = []\<rparr>) True
        password_test True
      = Inl ValueError"
  using encrypt_pixels_unencodable [OF unencodable_password_surrogate, of demo_sha demo_mk demo_rb "[]" True]
    encrypt_image_empty [OF encodable_password_test,
      of "\<lparr>width = 0, height = 3, mode = Mode_RGBA, getdata = []\<rparr>" demo_sha demo_mk demo_rb True True]
  by (simp add: wf_image_def)

text \<open>
  C8, amended. For an image of width 0 or height 0, every password that can be encoded
  in UTF-8 and either value of the flag, the encode and decode transforms (flatten, XOR,
  permutation, unflatten) raise no error and return an empty pixel list; \<open>encrypt_image\<close>
  and \<open>decrypt_image\<close> as a whole then raise an error and write no image: \<open>ValueError\<close>
  when the empty image is saved, or \<open>OSError\<close> before that when the output path cannot
  be written.
\<close>

theorem empty_image:
  assumes "encodable password" and "wf_image img" and "width img = 0 \<or> height img = 0"
  shows "encrypt_pixels H mk rb (getdata (convert_rgba img)) password shuffle = Inr []
       \<and> decrypt_pixels H mk rb (getdata (convert_rgba img)) password shuffle = Inr []
       \<and> encrypt_image H mk rb (Image_file img) out_writable password shuffle
           = Inl (if out_writable then ValueError else OSError)
       \<and> decrypt_image H mk rb (Image_file img) out_writable password shuffle
           = Inl (if out_writable then ValueError else OSError)"
proof -
  have "getdata (convert_rgba img) = []"
    using wf_image_empty [OF assms(2,3)] by (simp add: convert_rgba_def)
  then show ?thesis
    using encrypt_pixels_empty [OF assms(1), of H mk rb shuffle]
      decrypt_pixels_empty [OF assms(1), of H mk rb shuffle]
      encrypt_image_empty [OF assms, of H mk rb out_writable shuffle]
      decrypt_image_empty [OF assms, of H mk rb out_writable shuffle]
    by simp
qed

theorem empty_image_witness:
  "encrypt_pixels demo_sha demo_mk demo_rb
       (getdata (convert_rgba \<lparr>width = 0, height = 3, mode = Mode_RGB, getdata = []\<rparr>))
       password_test True = Inr []
   \<and> decrypt_pixels demo_sha demo_mk demo_rb
       (getdata (convert_rgba \<lparr>width = 0, height = 3, mode = Mode_RGB, getdata = []\<rparr>))
       password_test True = Inr []
   \<and> encrypt_image demo_sha demo_mk demo_rb
       (Image_file \<lparr>width = 0, height = 3, mode = Mode_RGB, getdata = []\<rparr>) True
       password_test True
       = Inl ValueError
   \<and> decrypt_image demo_sha demo_mk demo_rb
       (Image_file \<lparr>width = 0, height = 3, mode = Mode_RGB, getdata = []\<rparr>) True
       password_test True
       = Inl ValueError"
  using empty_image [OF encodable_password_test,
      of "\<lparr>width = 0, height = 3, mode = Mode_RGB, getdata = []\<rparr>" demo_sha demo_mk demo_rb
         True True]
  by (simp add: wf_image_def)




section \<open>Independence of the hidden generator\<close>

text \<open>
  A draw on an object of the process changes the state of that object only, so the
  shuffle run on the object that \<open>_shuffle_indices\<close> has just made computes what the loop
  computes on a generator of its own, and leaves the hidden generator as it was.
\<close>

lemma randbelow_at_Instance:
  assumes "a < length (instances st)" and "rb (instances st ! a) k = (j, g')"
  shows "randbelow_at rb (Instance a) k st = (j, st\<lparr>instances := (instances st)[a := g']\<rparr>)"
  using assms by (simp add: randbelow_at_def rng_state_def set_rng_state_def)

lemma shuffle_loop_swap:
  "shuffle_loop rb (Suc i) x g =
     (case rb g (Suc i + 1) of (j, g') \<Rightarrow>
        bind_err (bind_err (py_get x (int j)) (\<lambda>xj.
                  bind_err (py_get x (int (Suc i))) (\<lambda>xi.
                  bind_err (py_set x (int (Suc i)) xj) (\<lambda>x'.
                  py_set x' (int j) xi))))
          (\<lambda>x''. shuffle_loop rb i x'' g'))"
  by (simp add: bind_err_def split: prod.splits sum.splits)

lemma shuffle_loop_at_Instance:
  assumes "a < length (instances st)"
  shows "fst (shuffle_loop_at rb (Instance a) i x st) = shuffle_loop rb i x (instances st ! a)
       \<and> hidden (snd (shuffle_loop_at rb (Instance a) i x st)) = hidden st"
  using assms
proof (induction i arbitrary: x st)
  case 0
  then show ?case by simp
next
  case (Suc i)
  obtain j g' where r: "rb (instances st ! a) (Suc i + 1) = (j, g')"
    by (cases "rb (instances st ! a) (Suc i + 1)")
  define st' where "st' = st\<lparr>instances := (instances st)[a := g']\<rparr>"
  have at: "randbelow_at rb (Instance a) (Suc i + 1) st = (j, st')"
    unfolding st'_def using Suc.prems r by (rule randbelow_at_Instance)
  have st': "a < length (instances st')" "instances st' ! a = g'" "hidden st' = hidden st"
    using Suc.prems by (simp_all add: st'_def)
  define swapped where "swapped =
     bind_err (py_get x (int j)) (\<lambda>xj.
     bind_err (py_get x (int (Suc i))) (\<lambda>xi.
     bind_err (py_set x (int (Suc i)) xj) (\<lambda>x'.
     py_set x' (int j) xi)))"
  have lhs: "shuffle_loop_at rb (Instance a) (Suc i) x st =
      (case swapped of Inl e \<Rightarrow> (Inl e, st') | Inr x'' \<Rightarrow> shuffle_loop_at rb (Instance a) i x'' st')"
    unfolding swapped_def by (simp only: shuffle_loop_at.simps at prod.case)
  have rhs: "shuffle_loop rb (Suc i) x (instances st ! a) =
      bind_err swapped (\<lambda>x''. shuffle_loop rb i x'' g')"
    unfolding swapped_def by (simp only: shuffle_loop_swap r prod.case)
  show ?case
  proof (cases swapped)
    case (Inl e)
    then show ?thesis using lhs rhs st'(3) by simp
  next
    case (Inr x'')
    then show ?thesis using lhs rhs Suc.IH [OF st'(1), of x''] st'(2,3) by simp
  qed
qed

lemma shuffle_indices_in_pure:
  "fst (shuffle_indices_in mk rb n seed st) = shuffle_indices mk rb n seed
   \<and> hidden (snd (shuffle_indices_in mk rb n seed st)) = hidden st"
proof -
  define st' where "st' = st\<lparr>instances := instances st @ [mk seed]\<rparr>"
  have a: "length (instances st) < length (instances st')" by (simp add: st'_def)
  have "shuffle_indices_in mk rb n seed st =
      shuffle_loop_at rb (Instance (length (instances st))) (length (py_range n) - 1) (py_range n) st'"
    by (simp add: shuffle_indices_in_def new_Random_def st'_def Let_def)
  moreover have "instances st' ! length (instances st) = mk seed" "hidden st' = hidden st"
    by (simp_all add: st'_def)
  ultimately show ?thesis
    using shuffle_loop_at_Instance [OF a, of rb "length (py_range n) - 1" "py_range n"]
    by (simp add: shuffle_indices_def random_shuffle_def Let_def)
qed

lemma exec_core_call:
  assumes "core_call c"
  shows "fst (exec H mk rb c st) = core_value H mk rb c"
    and "hidden (snd (exec H mk rb c st)) = hidden st"
  using assms shuffle_indices_in_pure [of mk rb _ _ st]
  by (cases c; simp split: prod.splits; metis fst_conv snd_conv)+

lemma length_run [simp]: "length (run H mk rb cs st) = length cs"
  by (induction cs arbitrary: st) (simp_all split: prod.splits)

lemma run_nth_core:
  "i < length cs \<Longrightarrow> core_call (cs ! i) \<Longrightarrow>
     run H mk rb cs st ! i = core_value H mk rb (cs ! i)"
proof (induction cs arbitrary: i st)
  case Nil
  then show ?case by simp
next
  case (Cons c cs)
  show ?case
  proof (cases i)
    case 0
    then show ?thesis
      using Cons.prems exec_core_call(1) [of c H mk rb st] by (auto split: prod.splits)
  next
    case (Suc j)
    then show ?thesis using Cons by (simp split: prod.splits)
  qed
qed

text \<open>The hidden generator does influence the calls that use it: \<open>random.randint(0, 9)\<close>
  returns different numbers from two of its states.\<close>

lemma hidden_generator_matters:
  "run demo_sha demo_mk demo_rb [Call_random_randint 0 9] \<lparr>hidden = 0, instances = []\<rparr>
     \<noteq> run demo_sha demo_mk demo_rb [Call_random_randint 0 9] \<lparr>hidden = 1, instances = []\<rparr>"
  by (simp add: randbelow_at_def rng_state_def set_rng_state_def demo_rb_def)

text \<open>
  C7. Determinism and absence of hidden state. Take any two sequences of calls, each
  interleaving calls of \<open>_key_stream\<close> and \<open>_shuffle_indices\<close> with calls of \<open>random.seed\<close>
  and \<open>random.randint\<close> on the process-wide generator, run from any two states of the
  process (hidden generator and generator objects). Whenever a call of \<open>_key_stream\<close> or
  of \<open>_shuffle_indices\<close> occurs in both with identical arguments, it yields identical
  outputs in both; the output is the one computed from the arguments alone; and the call
  leaves the state of the hidden generator unchanged.
\<close>

theorem core_calls_deterministic:
  assumes "i < length cs" and "j < length cs'" and "cs ! i = cs' ! j" and "core_call (cs ! i)"
  shows "run H mk rb cs st ! i = run H mk rb cs' st' ! j
       \<and> run H mk rb cs st ! i = core_value H mk rb (cs ! i)
       \<and> hidden (snd (exec H mk rb (cs ! i) st)) = hidden st"
proof -
  have a: "run H mk rb cs st ! i = core_value H mk rb (cs ! i)"
    using assms(1,4) by (rule run_nth_core)
  have b: "run H mk rb cs' st' ! j = core_value H mk rb (cs ! i)"
    using run_nth_core [of j cs' H mk rb st'] assms(2,3,4) by simp
  show ?thesis using a b exec_core_call(2) [OF assms(4)] by simp
qed

theorem core_calls_deterministic_witness:
  "run demo_sha demo_mk demo_rb
      [Call_random_seed 1, Call_shuffle_indices 4 5, Call_random_randint 0 9]
      \<lparr>hidden = 0, instances = []\<rparr> ! 1
   = run demo_sha demo_mk demo_rb
      [Call_random_randint 3 7, Call_key_stream password_test 2, Call_shuffle_indices 4 5]
      \<lparr>hidden = 42, instances = [7]\<rparr> ! 2"
  using core_calls_deterministic [of 1
      "[Call_random_seed 1, Call_shuffle_indices 4 5, Call_random_randint 0 9]" 2
      "[Call_random_randint 3 7, Call_key_stream password_test 2, Call_shuffle_indices 4 5]"
      demo_sha demo_mk demo_rb "\<lparr>hidden = 0, instances = []\<rparr>" "\<lparr>hidden = 42, instances = [7]\<rparr>"]
  by simp

end
